theory Spec2Isabelle
  imports Main "HOL-Library.Word"
begin

section \<open>Data model of \<^verbatim>\<open>include/ibm/locks.hpp\<close>\<close>

text \<open>
  The source keeps every field as the C++ type it has on the wire: the lock type and the
  segment flags are strings (\<^verbatim>\<open>stype = std::string\<close>), a segment length is a
  \<^verbatim>\<open>uint32_t\<close>, the resource id a \<^verbatim>\<open>uint64_t\<close>. A segment is the pair
  \<^verbatim>\<open>std::pair<stype, uint32_t>\<close> (flag first, length second); a lock request is the tuple
  \<^verbatim>\<open>session-id | hmc-id | locktype | resourceid | segmentinfo\<close>, modelled as a record
  whose fields are the tuple's positions 0 to 4.
\<close>

type_synonym stype = string
type_synonym u32 = "32 word"
type_synonym u64 = "64 word"

type_synonym segmentflags = "(stype \<times> u32) list"

record lockrequest =
  sessionid :: stype
  hmcid :: stype
  locktype :: stype
  resourceid :: u64
  segmentinfo :: segmentflags

type_synonym lockrequests = "lockrequest list"
type_synonym listoftransactionIDs = "u32 list"

text \<open>The value-initialised tuple \<^verbatim>\<open>lockrequest()\<close>.\<close>

definition lockrequest_default :: lockrequest where
  "lockrequest_default =
     \<lparr>sessionid = [], hmcid = [], locktype = [], resourceid = 0, segmentinfo = []\<rparr>"

text \<open>
  The result encodings, pair for \<^verbatim>\<open>std::pair\<close> and sum for \<^verbatim>\<open>std::variant\<close>
  (\<open>Inl\<close> the first alternative, \<open>Inr\<close> the second).
\<close>

type_synonym rc = "bool \<times> (u32 + u32 \<times> lockrequest)"
type_synonym rcrelaselock = "bool \<times> (u32 \<times> lockrequest)"
type_synonym rcacquirelock = "bool \<times> (rc + bool \<times> int)"
type_synonym rcreleaselockapi = "bool \<times> (bool + rcrelaselock)"

text \<open>
  The class \<^verbatim>\<open>lock\<close>: the 32-bit counter and the table. \<^verbatim>\<open>std::map\<close> keeps its entries
  in ascending key order with unique keys, and the table scan of \<^verbatim>\<open>isconflictwithtable\<close>
  walks it in that order, so the table is an association list kept sorted by key.
\<close>

type_synonym locktable_t = "(u32 \<times> lockrequests) list"

record lock =
  transactionID :: u32
  locktable :: locktable_t

text \<open>The constructor \<^verbatim>\<open>lock()\<close> sets the counter to 0; the map starts empty.\<close>

definition lockobject :: lock where
  "lockobject = \<lparr>transactionID = 0, locktable = []\<rparr>"

text \<open>
  Reads that C++ leaves undefined (an index past the end of a vector, a byte past the end
  of the 8-byte resource id) are a value of the model, so that every such read is a
  branch one can reason about.
\<close>

datatype fault = OutOfRange

subsection \<open>\<^verbatim>\<open>std::map\<close> operations used by the class\<close>

text \<open>\<^verbatim>\<open>emplace\<close> inserts at the key's sorted position and leaves an existing key untouched.\<close>

fun emplace :: "u32 \<Rightarrow> lockrequests \<Rightarrow> locktable_t \<Rightarrow> locktable_t" where
  "emplace k v [] = [(k, v)]"
| "emplace k v ((k', v') # rest) =
     (if k = k' then (k', v') # rest
      else if k < k' then (k, v) # (k', v') # rest
      else (k', v') # emplace k v rest)"

definition erase :: "u32 \<Rightarrow> locktable_t \<Rightarrow> locktable_t" where
  "erase k tbl = filter (\<lambda>entry. fst entry \<noteq> k) tbl"

definition find_entry :: "locktable_t \<Rightarrow> u32 \<Rightarrow> lockrequests option" where
  "find_entry tbl k = map_of tbl k"

section \<open>Transaction ids\<close>

text \<open>\<^verbatim>\<open>generateTransactionID\<close>: pre-increment of the \<^verbatim>\<open>uint32_t\<close> member (it wraps).\<close>

definition generateTransactionID :: "lock \<Rightarrow> u32 \<times> lock" where
  "generateTransactionID st =
     (transactionID st + 1, st\<lparr>transactionID := transactionID st + 1\<rparr>)"

section \<open>Request validation\<close>

text \<open>
  The body of the segment loop of \<^verbatim>\<open>isvalidlockrequest\<close>, with the running
  \<^verbatim>\<open>lockflag\<close> count as an argument: flag legality, then the length bound, then the
  count of \<^verbatim>\<open>LockSame\<close>/\<^verbatim>\<open>LockAll\<close> flags, which fails on reaching 2.
\<close>

fun validsegments :: "int \<Rightarrow> segmentflags \<Rightarrow> bool" where
  "validsegments lockflag [] = True"
| "validsegments lockflag (p # ps) =
     (if \<not> (fst p = ''LockSame'' \<or> fst p = ''LockAll'' \<or> fst p = ''DontLock'') then False
      else if snd p < 1 \<or> snd p > 4 then False
      else if fst p = ''LockSame'' \<or> fst p = ''LockAll'' then
        (if lockflag + 1 \<ge> 2 then False else validsegments (lockflag + 1) ps)
      else validsegments lockflag ps)"

text \<open>
  The segment count is compared after \<^verbatim>\<open>static_cast<int>\<close>, the identity on every size
  below \<open>2 ^ 31\<close>; the model compares the length itself.
\<close>

definition isvalidlockrequest :: "lockrequest \<Rightarrow> bool" where
  "isvalidlockrequest r =
     (if \<not> (locktype r = ''Read'' \<or> locktype r = ''Write'') then False
      else if length (segmentinfo r) > 6 \<or> length (segmentinfo r) < 2 then False
      else validsegments 0 (segmentinfo r))"

section \<open>Conflict detection\<close>

text \<open>
  \<^verbatim>\<open>checkbyte\<close> reads byte \<open>j\<close> of each resource id through a \<^verbatim>\<open>uint8_t *\<close>, that is in
  memory order, which depends on the byte order of the machine; the byte order is a
  parameter of the model and every theorem holds for both. An offset of 8 or more is
  outside the 8-byte object.
\<close>

datatype endian = LittleEndian | BigEndian

definition byte_at :: "endian \<Rightarrow> u64 \<Rightarrow> nat \<Rightarrow> 8 word" where
  "byte_at e x j =
     ucast (drop_bit (8 * (case e of LittleEndian \<Rightarrow> j | BigEndian \<Rightarrow> 7 - j)) x)"

definition checkbyte :: "endian \<Rightarrow> u64 \<Rightarrow> u64 \<Rightarrow> nat \<Rightarrow> fault + bool" where
  "checkbyte e resourceid1 resourceid2 j =
     (if j \<ge> 8 then Inl OutOfRange
      else if byte_at e resourceid1 j \<noteq> byte_at e resourceid2 j then Inr False
      else Inr True)"

text \<open>
  The inner loop \<^verbatim>\<open>for (uint32_t i = 0; i < p.second; i++)\<close> over the offsets it is given:
  \<open>Inr False\<close> at the first differing byte, \<open>Inr True\<close> when the loop runs to its end.
\<close>

fun comparesegmentdata :: "endian \<Rightarrow> u64 \<Rightarrow> u64 \<Rightarrow> nat list \<Rightarrow> fault + bool" where
  "comparesegmentdata e r1 r2 [] = Inr True"
| "comparesegmentdata e r1 r2 (j # js) =
     (case checkbyte e r1 r2 j of
        Inl f \<Rightarrow> Inl f
      | Inr same \<Rightarrow> if \<not> same then Inr False else comparesegmentdata e r1 r2 js)"

text \<open>
  The range-for over the first record's segments, with the counter \<open>i\<close> that indexes the
  second record's segments. The first operand of \<^verbatim>\<open>||\<close> decides alone when the first
  record's flag is \<^verbatim>\<open>LockAll\<close>; otherwise \<^verbatim>\<open>std::get<4>(reflockrecord2)[i]\<close> is read, with
  no bounds check. Falling off the end of the loop returns false.
\<close>

fun segmentloop ::
  "endian \<Rightarrow> u64 \<Rightarrow> u64 \<Rightarrow> segmentflags \<Rightarrow> segmentflags \<Rightarrow> nat \<Rightarrow> fault + bool" where
  "segmentloop e r1 r2 [] segs2 i = Inr False"
| "segmentloop e r1 r2 (p # ps) segs2 i =
     (if fst p = ''LockAll'' then Inr True
      else if i \<ge> length segs2 then Inl OutOfRange
      else if fst (segs2 ! i) = ''LockAll'' then Inr True
      else if (fst p = ''LockSame'' \<or> fst (segs2 ! i) = ''LockSame'')
              \<and> snd p = snd (segs2 ! i) then Inr True
      else if snd p \<noteq> snd (segs2 ! i) then Inr False
      else (case comparesegmentdata e r1 r2 [0..<unat (snd p)] of
              Inl f \<Rightarrow> Inl f
            | Inr same \<Rightarrow> if \<not> same then Inr False
                          else segmentloop e r1 r2 ps segs2 (i + 1)))"

definition isconflictrecord :: "endian \<Rightarrow> lockrequest \<Rightarrow> lockrequest \<Rightarrow> fault + bool" where
  "isconflictrecord e reflockrecord1 reflockrecord2 =
     (if locktype reflockrecord1 = ''Read'' \<and> locktype reflockrecord2 = ''Read''
      then Inr False
      else segmentloop e (resourceid reflockrecord1) (resourceid reflockrecord2)
             (segmentinfo reflockrecord1) (segmentinfo reflockrecord2) 0)"

text \<open>
  \<^verbatim>\<open>isconflictrequest\<close>: a batch of exactly one record never conflicts; otherwise every
  record is compared with each record after it (\<open>j = i + 1 ..\<close>), the first conflict wins.
\<close>

fun conflictwithlater :: "endian \<Rightarrow> lockrequest \<Rightarrow> lockrequests \<Rightarrow> fault + bool" where
  "conflictwithlater e p [] = Inr False"
| "conflictwithlater e p (q # qs) =
     (case isconflictrecord e p q of
        Inl f \<Rightarrow> Inl f
      | Inr status \<Rightarrow> if status then Inr True else conflictwithlater e p qs)"

fun conflictpairs :: "endian \<Rightarrow> lockrequests \<Rightarrow> fault + bool" where
  "conflictpairs e [] = Inr False"
| "conflictpairs e (p # rest) =
     (case conflictwithlater e p rest of
        Inl f \<Rightarrow> Inl f
      | Inr status \<Rightarrow> if status then Inr True else conflictpairs e rest)"

definition isconflictrequest :: "endian \<Rightarrow> lockrequests \<Rightarrow> fault + bool" where
  "isconflictrequest e reflockrequeststructure =
     (if length reflockrequeststructure = 1 then Inr False
      else conflictpairs e reflockrequeststructure)"

text \<open>
  The three nested loops of \<^verbatim>\<open>isconflictwithtable\<close>: for each record of the request, for
  each table entry in key order, for each record of the entry; the first conflict returns
  the entry's key and the table's record.
\<close>

fun scanentry ::
  "endian \<Rightarrow> lockrequest \<Rightarrow> u32 \<Rightarrow> lockrequests \<Rightarrow> fault + (u32 \<times> lockrequest) option" where
  "scanentry e p k [] = Inr None"
| "scanentry e p k (q # qs) =
     (case isconflictrecord e p q of
        Inl f \<Rightarrow> Inl f
      | Inr status \<Rightarrow> if status then Inr (Some (k, q)) else scanentry e p k qs)"

fun scantable ::
  "endian \<Rightarrow> lockrequest \<Rightarrow> locktable_t \<Rightarrow> fault + (u32 \<times> lockrequest) option" where
  "scantable e p [] = Inr None"
| "scantable e p (entry # rest) =
     (case scanentry e p (fst entry) (snd entry) of
        Inl f \<Rightarrow> Inl f
      | Inr (Some hit) \<Rightarrow> Inr (Some hit)
      | Inr None \<Rightarrow> scantable e p rest)"

fun scanrequest ::
  "endian \<Rightarrow> lockrequests \<Rightarrow> locktable_t \<Rightarrow> fault + (u32 \<times> lockrequest) option" where
  "scanrequest e [] tbl = Inr None"
| "scanrequest e (p # ps) tbl =
     (case scantable e p tbl of
        Inl f \<Rightarrow> Inl f
      | Inr (Some hit) \<Rightarrow> Inr (Some hit)
      | Inr None \<Rightarrow> scanrequest e ps tbl)"

definition addtotable :: "lock \<Rightarrow> lockrequests \<Rightarrow> rc \<times> lock" where
  "addtotable st reflockrequeststructure =
     (case generateTransactionID st of
        (tid, st') \<Rightarrow>
          ((False, Inl tid),
           st'\<lparr>locktable := emplace tid reflockrequeststructure (locktable st')\<rparr>))"

definition isconflictwithtable :: "endian \<Rightarrow> lock \<Rightarrow> lockrequests \<Rightarrow> fault + rc \<times> lock" where
  "isconflictwithtable e st reflockrequeststructure =
     (if locktable st = [] then Inr (addtotable st reflockrequeststructure)
      else (case scanrequest e reflockrequeststructure (locktable st) of
              Inl f \<Rightarrow> Inl f
            | Inr (Some hit) \<Rightarrow> Inr ((True, Inr hit), st)
            | Inr None \<Rightarrow> Inr (addtotable st reflockrequeststructure)))"

section \<open>Acquire\<close>

text \<open>The validation loop of \<^verbatim>\<open>Acquirelock\<close>: false at the first invalid record.\<close>

fun validrecords :: "lockrequests \<Rightarrow> bool" where
  "validrecords [] = True"
| "validrecords (lockrecord # rest) =
     (if \<not> isvalidlockrequest lockrecord then False else validrecords rest)"

definition Acquirelock :: "endian \<Rightarrow> lock \<Rightarrow> lockrequests \<Rightarrow> fault + rcacquirelock \<times> lock" where
  "Acquirelock e st lockrequeststructure =
     (if \<not> validrecords lockrequeststructure then Inr ((True, Inr (False, 0)), st)
      else (case isconflictrequest e lockrequeststructure of
              Inl f \<Rightarrow> Inl f
            | Inr status \<Rightarrow>
                if status then Inr ((True, Inr (True, 1)), st)
                else (case isconflictwithtable e st lockrequeststructure of
                        Inl f \<Rightarrow> Inl f
                      | Inr (conflict, st') \<Rightarrow> Inr ((False, Inl conflict), st'))))"

section \<open>Release\<close>

fun validaterids :: "locktable_t \<Rightarrow> listoftransactionIDs \<Rightarrow> bool" where
  "validaterids tbl [] = True"
| "validaterids tbl (rid # rest) =
     (if find_entry tbl rid \<noteq> None then validaterids tbl rest else False)"

text \<open>
  \<^verbatim>\<open>isitmylock\<close> takes the pair \<open>ids\<close> and compares \<^verbatim>\<open>ids.first\<close> with tuple position 1
  (the hmc id) and \<^verbatim>\<open>ids.second\<close> with position 0 (the session id) of
  \<^verbatim>\<open>locktable[id][0]\<close>. The read of element 0 has no bounds check: an entry holding an empty
  batch (and a missing key, for which \<^verbatim>\<open>operator[]\<close> makes an empty entry) is out of range.
\<close>

fun isitmylock ::
  "locktable_t \<Rightarrow> listoftransactionIDs \<Rightarrow> stype \<times> stype \<Rightarrow> fault + rcrelaselock" where
  "isitmylock tbl [] ids = Inr (True, (0, lockrequest_default))"
| "isitmylock tbl (rid # rest) ids =
     (case find_entry tbl rid of
        None \<Rightarrow> Inl OutOfRange
      | Some [] \<Rightarrow> Inl OutOfRange
      | Some (first # _) \<Rightarrow>
          if hmcid first = fst ids \<and> sessionid first = snd ids
          then isitmylock tbl rest ids
          else Inr (False, (rid, first)))"

fun releaselock :: "locktable_t \<Rightarrow> listoftransactionIDs \<Rightarrow> locktable_t" where
  "releaselock tbl [] = tbl"
| "releaselock tbl (rid # rest) = releaselock (erase rid tbl) rest"

definition Releaselock ::
  "lock \<Rightarrow> listoftransactionIDs \<Rightarrow> stype \<times> stype \<Rightarrow> fault + rcreleaselockapi \<times> lock" where
  "Releaselock st p ids =
     (if \<not> validaterids (locktable st) p then Inr ((False, Inl False), st)
      else (case isitmylock (locktable st) p ids of
              Inl f \<Rightarrow> Inl f
            | Inr status \<Rightarrow>
                Inr ((True, Inr status),
                     if fst status then st\<lparr>locktable := releaselock (locktable st) p\<rparr>
                     else st)))"

section \<open>The outcomes of the two operations\<close>

text \<open>
  Names for the values the two entry points return, after the outcome each encodes:
  \<^verbatim>\<open>Acquirelock\<close> returns \<^verbatim>\<open>(true, (false, 0))\<close> for an invalid record,
  \<^verbatim>\<open>(true, (true, 1))\<close> for a conflict inside the batch, and \<^verbatim>\<open>(false, conflict)\<close> with
  the result of the table check, which is \<^verbatim>\<open>(false, id)\<close> for a grant and
  \<^verbatim>\<open>(true, (id, record))\<close> for a conflict. \<^verbatim>\<open>Releaselock\<close> returns \<^verbatim>\<open>(false, false)\<close>
  for an unknown id and \<^verbatim>\<open>(true, status)\<close> with the result of the ownership check.
\<close>

definition Granted :: "u32 \<Rightarrow> rcacquirelock" where
  "Granted tid = (False, Inl (False, Inl tid))"

definition InvalidRequest :: rcacquirelock where
  "InvalidRequest = (True, Inr (False, 0))"

definition SelfConflict :: rcacquirelock where
  "SelfConflict = (True, Inr (True, 1))"

definition TableConflict :: "u32 \<Rightarrow> lockrequest \<Rightarrow> rcacquirelock" where
  "TableConflict heldBy conflictingRequest = (False, Inl (True, Inr (heldBy, conflictingRequest)))"


definition InvalidTransactionId :: rcreleaselockapi where
  "InvalidTransactionId = (False, Inl False)"

definition NotOwner :: "u32 \<Rightarrow> lockrequest \<Rightarrow> rcreleaselockapi" where
  "NotOwner tid ownerRequest = (True, Inr (False, (tid, ownerRequest)))"

section \<open>Operation sequences\<close>

text \<open>
  A client's view of one lock object: a sequence of calls of the two entry points.
  \<open>grantedid\<close> reads the id out of a result \<^verbatim>\<open>(false, (false, id))\<close> of \<^verbatim>\<open>Acquirelock\<close>;
  \<open>issued\<close> lists, in order, the transaction ids that the successful \<^verbatim>\<open>Acquirelock\<close> calls
  of the sequence return. A call that reads out of range ends the run: nothing is known
  of the program after it.
\<close>

datatype operation =
  Acquire lockrequests
| Release listoftransactionIDs "stype \<times> stype"

definition grantedid :: "rcacquirelock \<Rightarrow> u32 option" where
  "grantedid result =
     (case result of
        (False, Inl (False, Inl tid)) \<Rightarrow> Some tid
      | _ \<Rightarrow> None)"

fun issued :: "endian \<Rightarrow> lock \<Rightarrow> operation list \<Rightarrow> u32 list" where
  "issued e st [] = []"
| "issued e st (Acquire batch # ops) =
     (case Acquirelock e st batch of
        Inl f \<Rightarrow> []
      | Inr (result, st') \<Rightarrow>
          (case grantedid result of
             Some tid \<Rightarrow> tid # issued e st' ops
           | None \<Rightarrow> issued e st' ops))"
| "issued e st (Release p ids # ops) =
     (case Releaselock st p ids of
        Inl f \<Rightarrow> []
      | Inr (result, st') \<Rightarrow> issued e st' ops)"

text \<open>
  \<open>run\<close> is the lock object after the calls of a sequence, or the first read out of
  range.
\<close>

fun run :: "endian \<Rightarrow> lock \<Rightarrow> operation list \<Rightarrow> fault + lock" where
  "run e st [] = Inr st"
| "run e st (Acquire batch # ops) =
     (case Acquirelock e st batch of
        Inl f \<Rightarrow> Inl f
      | Inr (result, st') \<Rightarrow> run e st' ops)"
| "run e st (Release p ids # ops) =
     (case Releaselock st p ids of
        Inl f \<Rightarrow> Inl f
      | Inr (result, st') \<Rightarrow> run e st' ops)"

section \<open>Example requests\<close>

text \<open>A Write request of session \<open>session1\<close> on console \<open>hmc1\<close> with the given resource id and segments.\<close>

definition writerequest :: "u64 \<Rightarrow> segmentflags \<Rightarrow> lockrequest" where
  "writerequest rid segs =
     \<lparr>sessionid = ''session1'', hmcid = ''hmc1'', locktype = ''Write'',
      resourceid = rid, segmentinfo = segs\<rparr>"

text \<open>The record of the acquire scenario: two \<^verbatim>\<open>DontLock\<close> segments of length 2.\<close>

definition scenario_record :: lockrequest where
  "scenario_record = writerequest 0x0102 [(''DontLock'', 2), (''DontLock'', 2)]"

text \<open>The lock object after the record has been granted once, and twice.\<close>

definition granted_once :: lock where
  "granted_once = \<lparr>transactionID = 1, locktable = [(1, [scenario_record])]\<rparr>"

definition granted_twice :: lock where
  "granted_twice =
     \<lparr>transactionID = 2, locktable = [(1, [scenario_record]), (2, [scenario_record])]\<rparr>"

text \<open>
  Two valid Write requests whose first segments differ in length (1 against 2), the
  first of them flagged \<^verbatim>\<open>LockAll\<close>.
\<close>

definition lockall_first :: lockrequest where
  "lockall_first = writerequest 0 [(''LockAll'', 1), (''DontLock'', 1)]"

definition longer_first :: lockrequest where
  "longer_first = writerequest 0 [(''DontLock'', 2), (''DontLock'', 1)]"

text \<open>Two Write requests on one resource whose second segments differ in length.\<close>

definition second_short :: lockrequest where
  "second_short = writerequest 7 [(''DontLock'', 1), (''DontLock'', 2)]"

definition second_long :: lockrequest where
  "second_long = writerequest 7 [(''DontLock'', 1), (''DontLock'', 3)]"

text \<open>
  Two Write requests whose resource ids agree in the byte at offset 0 and differ in the
  byte at offset 1 (on a little-endian machine), the first with \<^verbatim>\<open>LockAll\<close> in third
  position.
\<close>

definition prefix_then_all :: lockrequest where
  "prefix_then_all = writerequest 0x0100 [(''DontLock'', 1), (''DontLock'', 1), (''LockAll'', 1)]"

definition prefix_plain :: lockrequest where
  "prefix_plain = writerequest 0 [(''DontLock'', 1), (''DontLock'', 1), (''DontLock'', 1)]"

text \<open>Two valid Write requests on one resource, of three and of two segments.\<close>

definition three_segments :: lockrequest where
  "three_segments = writerequest 0 [(''DontLock'', 1), (''DontLock'', 1), (''DontLock'', 1)]"

definition two_segments :: lockrequest where
  "two_segments = writerequest 0 [(''DontLock'', 1), (''DontLock'', 1)]"

text \<open>A Write request of two segments in range, the first with a flag that is none of the three.\<close>

definition unknown_flag :: lockrequest where
  "unknown_flag = writerequest 0 [(''Foo'', 1), (''DontLock'', 1)]"

text \<open>
  A run on a fresh lock object: a grant, its release by the owner, a grant of the empty
  batch, a rejected batch and one more grant.
\<close>

definition example_run :: "operation list" where
  "example_run =
     [Acquire [scenario_record], Release [1] (''hmc1'', ''session1''), Acquire [],
      Acquire [unknown_flag], Acquire [scenario_record]]"






section \<open>The segment loop\<close>

text \<open>
  The byte loop over offsets that all lie inside the resource id returns whether all the
  bytes agree.
\<close>

lemma comparesegmentdata_in_range:
  "\<forall>j\<in>set js. j < 8 \<Longrightarrow>
   comparesegmentdata e r1 r2 js = Inr (\<forall>j\<in>set js. byte_at e r1 j = byte_at e r2 j)"
  by (induction js) (auto simp: checkbyte_def)

lemma comparesegmentdata_upt:
  "n \<le> 8 \<Longrightarrow>
   comparesegmentdata e r1 r2 [0..<n] = Inr (\<forall>j<n. byte_at e r1 j = byte_at e r2 j)"
  using comparesegmentdata_in_range [of "[0..<n]" e r1 r2] by auto


text \<open>
  One pass of the segment loop that gets as far as the byte comparison: the offsets
  compared are \<open>0\<close> to \<open>length - 1\<close>, whatever the position \<open>i\<close>.
\<close>

lemma segmentloop_bytes:
  assumes "fst p \<noteq> ''LockAll''" and "i < length segs2"
    and "fst (segs2 ! i) \<noteq> ''LockAll''"
    and "fst p \<noteq> ''LockSame''" and "fst (segs2 ! i) \<noteq> ''LockSame''"
    and "snd p = snd (segs2 ! i)" and "unat (snd p) \<le> 8"
  shows "segmentloop e r1 r2 (p # ps) segs2 i =
           (if \<forall>j<unat (snd p). byte_at e r1 j = byte_at e r2 j
            then segmentloop e r1 r2 ps segs2 (Suc i) else Inr False)"
proof -
  have "comparesegmentdata e r1 r2 [0..<unat (snd p)] =
          Inr (\<forall>j<unat (snd p). byte_at e r1 j = byte_at e r2 j)"
    using assms(7) by (rule comparesegmentdata_upt)
  with assms show ?thesis by auto
qed

text \<open>
  A length mismatch at position \<open>k\<close> ends the loop with false when no \<^verbatim>\<open>LockAll\<close> flag
  stands at a position up to \<open>k\<close> and no \<^verbatim>\<open>LockSame\<close> flag at an earlier position of
  equal lengths.
\<close>

lemma segmentloop_length_differs:
  assumes "k < length segs1" and "i + k < length segs2"
    and "snd (segs1 ! k) \<noteq> snd (segs2 ! (i + k))"
    and "\<And>m. m \<le> k \<Longrightarrow>
           fst (segs1 ! m) \<noteq> ''LockAll'' \<and> fst (segs2 ! (i + m)) \<noteq> ''LockAll''"
    and "\<And>m. m < k \<Longrightarrow> snd (segs1 ! m) = snd (segs2 ! (i + m)) \<Longrightarrow>
           fst (segs1 ! m) \<noteq> ''LockSame'' \<and> fst (segs2 ! (i + m)) \<noteq> ''LockSame'' \<and>
           unat (snd (segs1 ! m)) \<le> 8"
  shows "segmentloop e r1 r2 segs1 segs2 i = Inr False"
  using assms
proof (induction k arbitrary: segs1 i)
  case 0
  then obtain p ps where segs1: "segs1 = p # ps"
    by (cases segs1) auto
  show ?case using "0.prems"(2,3) "0.prems"(4) [of 0] segs1 by auto
next
  case (Suc k)
  then obtain p ps where segs1: "segs1 = p # ps"
    by (cases segs1) auto
  have i: "i < length segs2" using Suc.prems(2) by simp
  have all: "fst p \<noteq> ''LockAll'' \<and> fst (segs2 ! i) \<noteq> ''LockAll''"
    using Suc.prems(4) [of 0] segs1 by auto
  have rest: "segmentloop e r1 r2 ps segs2 (Suc i) = Inr False"
  proof (rule Suc.IH)
    show "k < length ps" using Suc.prems(1) segs1 by simp
    show "Suc i + k < length segs2" using Suc.prems(2) by simp
    show "snd (ps ! k) \<noteq> snd (segs2 ! (Suc i + k))" using Suc.prems(3) segs1 by simp
    show "fst (ps ! m) \<noteq> ''LockAll'' \<and> fst (segs2 ! (Suc i + m)) \<noteq> ''LockAll''"
      if "m \<le> k" for m
      using Suc.prems(4) [of "Suc m"] that segs1 by auto
    show "fst (ps ! m) \<noteq> ''LockSame'' \<and> fst (segs2 ! (Suc i + m)) \<noteq> ''LockSame'' \<and>
           unat (snd (ps ! m)) \<le> 8"
      if "m < k" and "snd (ps ! m) = snd (segs2 ! (Suc i + m))" for m
      using Suc.prems(5) [of "Suc m"] that segs1 by auto
  qed
  show ?case
  proof (cases "snd p = snd (segs2 ! i)")
    case False
    then show ?thesis using segs1 i all by auto
  next
    case True
    then have same: "fst p \<noteq> ''LockSame'' \<and> fst (segs2 ! i) \<noteq> ''LockSame'' \<and>
           unat (snd p) \<le> 8"
      using Suc.prems(5) [of 0] segs1 by auto
    have "segmentloop e r1 r2 (p # ps) segs2 i =
           (if \<forall>j<unat (snd p). byte_at e r1 j = byte_at e r2 j
            then segmentloop e r1 r2 ps segs2 (Suc i) else Inr False)"
      using all i same True by (intro segmentloop_bytes) auto
    then show ?thesis using rest segs1 by simp
  qed
qed


text \<open>Positions that decide nothing are passed over.\<close>

lemma segmentloop_skip:
  assumes "k \<le> length segs1" and "i + k \<le> length segs2"
    and "\<And>m. m < k \<Longrightarrow>
           fst (segs1 ! m) \<noteq> ''LockAll'' \<and> fst (segs2 ! (i + m)) \<noteq> ''LockAll'' \<and>
           fst (segs1 ! m) \<noteq> ''LockSame'' \<and> fst (segs2 ! (i + m)) \<noteq> ''LockSame'' \<and>
           snd (segs1 ! m) = snd (segs2 ! (i + m)) \<and> unat (snd (segs1 ! m)) \<le> 8 \<and>
           (\<forall>j<unat (snd (segs1 ! m)). byte_at e r1 j = byte_at e r2 j)"
  shows "segmentloop e r1 r2 segs1 segs2 i = segmentloop e r1 r2 (drop k segs1) segs2 (i + k)"
  using assms
proof (induction k arbitrary: segs1 i)
  case 0
  then show ?case by simp
next
  case (Suc k)
  then obtain p ps where segs1: "segs1 = p # ps"
    by (cases segs1) auto
  have head: "fst p \<noteq> ''LockAll'' \<and> fst (segs2 ! i) \<noteq> ''LockAll'' \<and>
           fst p \<noteq> ''LockSame'' \<and> fst (segs2 ! i) \<noteq> ''LockSame'' \<and>
           snd p = snd (segs2 ! i) \<and> unat (snd p) \<le> 8 \<and>
           (\<forall>j<unat (snd p). byte_at e r1 j = byte_at e r2 j)"
    using Suc.prems(3) [of 0] segs1 by auto
  have i: "i < length segs2"
    using Suc.prems(2) by simp
  have step: "segmentloop e r1 r2 (p # ps) segs2 i = segmentloop e r1 r2 ps segs2 (Suc i)"
    using head i segmentloop_bytes [of p i segs2 e r1 r2 ps] by auto
  have rest: "segmentloop e r1 r2 ps segs2 (Suc i) =
                segmentloop e r1 r2 (drop k ps) segs2 (Suc i + k)"
  proof (rule Suc.IH)
    show "k \<le> length ps" using Suc.prems(1) segs1 by simp
    show "Suc i + k \<le> length segs2" using Suc.prems(2) by simp
    fix m assume "m < k"
    then show "fst (ps ! m) \<noteq> ''LockAll'' \<and> fst (segs2 ! (Suc i + m)) \<noteq> ''LockAll'' \<and>
           fst (ps ! m) \<noteq> ''LockSame'' \<and> fst (segs2 ! (Suc i + m)) \<noteq> ''LockSame'' \<and>
           snd (ps ! m) = snd (segs2 ! (Suc i + m)) \<and> unat (snd (ps ! m)) \<le> 8 \<and>
           (\<forall>j<unat (snd (ps ! m)). byte_at e r1 j = byte_at e r2 j)"
      using Suc.prems(3) [of "Suc m"] segs1 by auto
  qed
  show ?case using step rest segs1 by simp
qed

section \<open>Pairwise conflicts\<close>

text \<open>
  Claim C3. Two requests that are not both Read, with as many segments each, whose
  segments at every position are both \<^verbatim>\<open>DontLock\<close> and of one length, and whose resource
  ids agree in the bytes at offsets \<open>0\<close> to \<open>length - 1\<close>, do not conflict:
  \<^verbatim>\<open>isconflictrecord\<close> returns false. The bytes compared exist: a length is at most the 8
  bytes of a resource id (validated lengths are at most 4).
\<close>

theorem C3_all_dontlock_no_conflict:
  assumes "\<not> (locktype a = ''Read'' \<and> locktype b = ''Read'')"
    and "length (segmentinfo a) = length (segmentinfo b)"
    and "\<forall>i<length (segmentinfo a).
           fst (segmentinfo a ! i) = ''DontLock'' \<and> fst (segmentinfo b ! i) = ''DontLock'' \<and>
           snd (segmentinfo a ! i) = snd (segmentinfo b ! i) \<and>
           unat (snd (segmentinfo a ! i)) \<le> 8 \<and>
           (\<forall>j<unat (snd (segmentinfo a ! i)).
              byte_at e (resourceid a) j = byte_at e (resourceid b) j)"
  shows "isconflictrecord e a b = Inr False"
proof -
  have "segmentloop e (resourceid a) (resourceid b) (segmentinfo a) (segmentinfo b) 0 =
        segmentloop e (resourceid a) (resourceid b)
          (drop (length (segmentinfo a)) (segmentinfo a)) (segmentinfo b)
          (0 + length (segmentinfo a))"
  proof (rule segmentloop_skip)
    show "length (segmentinfo a) \<le> length (segmentinfo a)" by simp
    show "0 + length (segmentinfo a) \<le> length (segmentinfo b)" using assms(2) by simp
    fix m assume "m < length (segmentinfo a)"
    with assms(3) show "fst (segmentinfo a ! m) \<noteq> ''LockAll'' \<and>
         fst (segmentinfo b ! (0 + m)) \<noteq> ''LockAll'' \<and>
         fst (segmentinfo a ! m) \<noteq> ''LockSame'' \<and>
         fst (segmentinfo b ! (0 + m)) \<noteq> ''LockSame'' \<and>
         snd (segmentinfo a ! m) = snd (segmentinfo b ! (0 + m)) \<and>
         unat (snd (segmentinfo a ! m)) \<le> 8 \<and>
         (\<forall>j<unat (snd (segmentinfo a ! m)).
             byte_at e (resourceid a) j = byte_at e (resourceid b) j)"
      by auto
  qed
  then show ?thesis using assms(1) by (simp add: isconflictrecord_def)
qed


text \<open>A Write request with all-\<^verbatim>\<open>DontLock\<close> segments does not conflict with a copy of itself.\<close>

theorem C3_all_dontlock_no_conflict_witness:
  "isconflictrecord LittleEndian scenario_record scenario_record = Inr False"
  using C3_all_dontlock_no_conflict [of scenario_record scenario_record LittleEndian]
  by (simp add: scenario_record_def writerequest_def less_Suc_eq all_conj_distrib)

text \<open>
  Claim C4, as amended. When the segments at position \<open>i\<close> differ in length, the pair
  does not conflict, provided that the checks the loop makes first do not decide: no
  segment of either request at a position up to \<open>i\<close> is \<^verbatim>\<open>LockAll\<close>, and no position
  before \<open>i\<close> has equal lengths and a \<^verbatim>\<open>LockSame\<close> flag (lengths before \<open>i\<close> being at most
  the 8 bytes of a resource id). The resource ids are arbitrary.
\<close>

theorem C4_length_mismatch_after_flags:
  assumes "i < length (segmentinfo a)" and "i < length (segmentinfo b)"
    and "snd (segmentinfo a ! i) \<noteq> snd (segmentinfo b ! i)"
    and "\<forall>m\<le>i. fst (segmentinfo a ! m) \<noteq> ''LockAll'' \<and> fst (segmentinfo b ! m) \<noteq> ''LockAll''"
    and "\<forall>m<i. snd (segmentinfo a ! m) = snd (segmentinfo b ! m) \<longrightarrow>
           fst (segmentinfo a ! m) \<noteq> ''LockSame'' \<and> fst (segmentinfo b ! m) \<noteq> ''LockSame''"
    and "\<forall>m<i. unat (snd (segmentinfo a ! m)) \<le> 8"
  shows "isconflictrecord e a b = Inr False"
proof -
  have "segmentloop e (resourceid a) (resourceid b) (segmentinfo a) (segmentinfo b) 0 = Inr False"
  proof (rule segmentloop_length_differs [where k = i])
    show "i < length (segmentinfo a)" by (rule assms(1))
    show "0 + i < length (segmentinfo b)" using assms(2) by simp
    show "snd (segmentinfo a ! i) \<noteq> snd (segmentinfo b ! (0 + i))" using assms(3) by simp
    show "fst (segmentinfo a ! m) \<noteq> ''LockAll'' \<and> fst (segmentinfo b ! (0 + m)) \<noteq> ''LockAll''"
      if "m \<le> i" for m using assms(4) that by simp
    show "fst (segmentinfo a ! m) \<noteq> ''LockSame'' \<and>
          fst (segmentinfo b ! (0 + m)) \<noteq> ''LockSame'' \<and>
          unat (snd (segmentinfo a ! m)) \<le> 8"
      if "m < i" and "snd (segmentinfo a ! m) = snd (segmentinfo b ! (0 + m))" for m
      using assms(5,6) that by auto
  qed
  then show ?thesis by (simp add: isconflictrecord_def)
qed

theorem C4_length_mismatch_witness:
  "isconflictrecord BigEndian second_short second_long = Inr False"
  using C4_length_mismatch_after_flags [of 1 second_short second_long BigEndian]
  by (simp add: second_short_def second_long_def writerequest_def le_Suc_eq all_conj_distrib)


text \<open>
  The claim as stated fails: the first segments differ in length, and the \<^verbatim>\<open>LockAll\<close>
  flag, which is tested before the lengths, makes the pair conflict.
\<close>

theorem C4_lockall_beats_length_counterexample:
  "isvalidlockrequest lockall_first \<and> isvalidlockrequest longer_first \<and>
   snd (segmentinfo lockall_first ! 0) \<noteq> snd (segmentinfo longer_first ! 0) \<and>
   isconflictrecord LittleEndian lockall_first longer_first = Inr True"
  by (simp add: lockall_first_def longer_first_def writerequest_def isconflictrecord_def
      isvalidlockrequest_def)


text \<open>
  Claim C5. At a position \<open>k\<close> that the loop reaches (every earlier position decided
  nothing) and where it gets to the byte comparison (neither flag is \<^verbatim>\<open>LockAll\<close> or
  \<^verbatim>\<open>LockSame\<close>, equal lengths), the bytes compared are those at offsets \<open>0\<close> to
  \<open>length - 1\<close> of the two resource ids, with no offset for the lengths of the earlier
  segments: if one of them differs the whole pair does not conflict, otherwise the loop
  goes on with position \<open>k + 1\<close>.
\<close>

theorem C5_bytes_from_offset_zero:
  assumes "\<not> (locktype a = ''Read'' \<and> locktype b = ''Read'')"
    and "k < length (segmentinfo a)" and "k < length (segmentinfo b)"
    and "\<forall>m<k.
           fst (segmentinfo a ! m) \<noteq> ''LockAll'' \<and> fst (segmentinfo b ! m) \<noteq> ''LockAll'' \<and>
           fst (segmentinfo a ! m) \<noteq> ''LockSame'' \<and> fst (segmentinfo b ! m) \<noteq> ''LockSame'' \<and>
           snd (segmentinfo a ! m) = snd (segmentinfo b ! m) \<and>
           unat (snd (segmentinfo a ! m)) \<le> 8 \<and>
           (\<forall>j<unat (snd (segmentinfo a ! m)).
              byte_at e (resourceid a) j = byte_at e (resourceid b) j)"
    and "fst (segmentinfo a ! k) \<noteq> ''LockAll''" and "fst (segmentinfo b ! k) \<noteq> ''LockAll''"
    and "fst (segmentinfo a ! k) \<noteq> ''LockSame''" and "fst (segmentinfo b ! k) \<noteq> ''LockSame''"
    and "snd (segmentinfo a ! k) = snd (segmentinfo b ! k)"
    and "unat (snd (segmentinfo a ! k)) \<le> 8"
  shows "isconflictrecord e a b =
           (if \<forall>j<unat (snd (segmentinfo a ! k)).
                 byte_at e (resourceid a) j = byte_at e (resourceid b) j
            then segmentloop e (resourceid a) (resourceid b)
                   (drop (Suc k) (segmentinfo a)) (segmentinfo b) (Suc k)
            else Inr False)"
proof -
  let ?r1 = "resourceid a" and ?r2 = "resourceid b"
  let ?s1 = "segmentinfo a" and ?s2 = "segmentinfo b"
  have skip: "segmentloop e ?r1 ?r2 ?s1 ?s2 0 = segmentloop e ?r1 ?r2 (drop k ?s1) ?s2 (0 + k)"
  proof (rule segmentloop_skip)
    show "k \<le> length ?s1" using assms(2) by simp
    show "0 + k \<le> length ?s2" using assms(3) by simp
    fix m assume "m < k"
    with assms(4) show "fst (?s1 ! m) \<noteq> ''LockAll'' \<and> fst (?s2 ! (0 + m)) \<noteq> ''LockAll'' \<and>
         fst (?s1 ! m) \<noteq> ''LockSame'' \<and> fst (?s2 ! (0 + m)) \<noteq> ''LockSame'' \<and>
         snd (?s1 ! m) = snd (?s2 ! (0 + m)) \<and> unat (snd (?s1 ! m)) \<le> 8 \<and>
         (\<forall>j<unat (snd (?s1 ! m)). byte_at e ?r1 j = byte_at e ?r2 j)"
      by auto
  qed
  have drop: "drop k ?s1 = ?s1 ! k # drop (Suc k) ?s1"
    using assms(2) by (simp add: Cons_nth_drop_Suc)
  have bytes: "segmentloop e ?r1 ?r2 (?s1 ! k # drop (Suc k) ?s1) ?s2 k =
          (if \<forall>j<unat (snd (?s1 ! k)). byte_at e ?r1 j = byte_at e ?r2 j
           then segmentloop e ?r1 ?r2 (drop (Suc k) ?s1) ?s2 (Suc k) else Inr False)"
    using assms(5) assms(3) assms(6) assms(7) assms(8) assms(9) assms(10)
    by (rule segmentloop_bytes)
  have "isconflictrecord e a b = segmentloop e ?r1 ?r2 ?s1 ?s2 0"
    using assms(1) by (auto simp: isconflictrecord_def)
  also have "\<dots> = segmentloop e ?r1 ?r2 (drop k ?s1) ?s2 k"
    using skip by simp
  also have "\<dots> = segmentloop e ?r1 ?r2 (?s1 ! k # drop (Suc k) ?s1) ?s2 k"
    by (simp only: drop)
  also note bytes
  finally show ?thesis .
qed


text \<open>
  The resource ids differ at offset 1 only. Position 1, of length 1, compares offset 0
  again, so the loop goes on to the \<^verbatim>\<open>LockAll\<close> flag of position 2.
\<close>

theorem C5_bytes_from_offset_zero_witness:
  "byte_at LittleEndian (resourceid prefix_then_all) 1 \<noteq>
     byte_at LittleEndian (resourceid prefix_plain) 1 \<and>
   isconflictrecord LittleEndian prefix_then_all prefix_plain = Inr True"
  using C5_bytes_from_offset_zero [of prefix_then_all prefix_plain 1 LittleEndian]
  by (simp add: prefix_then_all_def prefix_plain_def writerequest_def byte_at_def
      less_Suc_eq all_conj_distrib)


text \<open>
  Claim C6. There are two requests that pass validation, the first with more segments
  than the second, for which \<^verbatim>\<open>isconflictrecord\<close> reads the second request's segments out
  of range.
\<close>

theorem C6_second_record_read_out_of_range:
  "\<exists>a b. isvalidlockrequest a \<and> isvalidlockrequest b \<and>
         length (segmentinfo b) < length (segmentinfo a) \<and>
         isconflictrecord e a b = Inl OutOfRange"
proof (intro exI conjI)
  show "isvalidlockrequest three_segments"
    by (simp add: three_segments_def writerequest_def isvalidlockrequest_def)
  show "isvalidlockrequest two_segments"
    by (simp add: two_segments_def writerequest_def isvalidlockrequest_def)
  show "length (segmentinfo two_segments) < length (segmentinfo three_segments)"
    by (simp add: two_segments_def three_segments_def writerequest_def)
  show "isconflictrecord e three_segments two_segments = Inl OutOfRange"
    by (simp add: two_segments_def three_segments_def writerequest_def isconflictrecord_def
        checkbyte_def)
qed


text \<open>The public entry point reaches that read: the two requests in one batch.\<close>

lemma Acquirelock_out_of_range:
  "Acquirelock e lockobject [three_segments, two_segments] = Inl OutOfRange"
  by (simp add: Acquirelock_def isvalidlockrequest_def isconflictrequest_def
      isconflictrecord_def checkbyte_def three_segments_def two_segments_def
      writerequest_def)

section \<open>Validation\<close>

lemma one_le_length: "1 \<le> (n :: u32) \<longleftrightarrow> n \<noteq> 0"
  using word_less_1 [of n] by (simp only: not_less [symmetric])

text \<open>
  The segment loop entered with a count below 2 accepts exactly the lists whose segments
  all have a legal flag and a length from 1 to 4, and in which the flags \<^verbatim>\<open>LockSame\<close>
  and \<^verbatim>\<open>LockAll\<close> together bring the count to less than 2.
\<close>

lemma validsegments_iff:
  "lockflag < 2 \<Longrightarrow>
   validsegments lockflag segs \<longleftrightarrow>
     (\<forall>p\<in>set segs. (fst p = ''LockSame'' \<or> fst p = ''LockAll'' \<or> fst p = ''DontLock'') \<and>
                    1 \<le> snd p \<and> snd p \<le> 4) \<and>
     lockflag + int (length (filter (\<lambda>p. fst p = ''LockSame'' \<or> fst p = ''LockAll'') segs)) < 2"
proof (induction segs arbitrary: lockflag)
  case Nil
  then show ?case by simp
next
  case (Cons p ps)
  show ?case
  proof (cases "fst p = ''LockSame'' \<or> fst p = ''LockAll''")
    case True
    show ?thesis
    proof (cases "lockflag + 1 \<ge> 2")
      case True
      with \<open>fst p = ''LockSame'' \<or> fst p = ''LockAll''\<close> show ?thesis by auto
    next
      case False
      then have "lockflag + 1 < 2" by simp
      from Cons.IH [OF this] True False show ?thesis
        by (auto simp: one_le_length not_less add.assoc)
    qed
  next
    case False
    with Cons.IH [OF Cons.prems] show ?thesis by (auto simp: one_le_length not_less)
  qed
qed

text \<open>
  Claim C7, as amended. \<^verbatim>\<open>isvalidlockrequest\<close> returns true exactly when the lock type is
  \<^verbatim>\<open>Read\<close> or \<^verbatim>\<open>Write\<close>, there are between 2 and 6 segments, every segment has one of
  the flags \<^verbatim>\<open>LockSame\<close>, \<^verbatim>\<open>LockAll\<close>, \<^verbatim>\<open>DontLock\<close> and a length between 1 and 4, and
  fewer than two segments carry \<^verbatim>\<open>LockSame\<close> or \<^verbatim>\<open>LockAll\<close>.
\<close>

theorem C7_validation_rule:
  "isvalidlockrequest r \<longleftrightarrow>
     (locktype r = ''Read'' \<or> locktype r = ''Write'') \<and>
     2 \<le> length (segmentinfo r) \<and> length (segmentinfo r) \<le> 6 \<and>
     (\<forall>p\<in>set (segmentinfo r).
        (fst p = ''LockSame'' \<or> fst p = ''LockAll'' \<or> fst p = ''DontLock'') \<and>
        1 \<le> snd p \<and> snd p \<le> 4) \<and>
     length (filter (\<lambda>p. fst p = ''LockSame'' \<or> fst p = ''LockAll'') (segmentinfo r)) < 2"
proof -
  have "validsegments 0 (segmentinfo r) \<longleftrightarrow>
     (\<forall>p\<in>set (segmentinfo r).
        (fst p = ''LockSame'' \<or> fst p = ''LockAll'' \<or> fst p = ''DontLock'') \<and>
        1 \<le> snd p \<and> snd p \<le> 4) \<and>
     length (filter (\<lambda>p. fst p = ''LockSame'' \<or> fst p = ''LockAll'') (segmentinfo r)) < 2"
    using validsegments_iff [of 0 "segmentinfo r"] by simp
  then show ?thesis
    unfolding isvalidlockrequest_def by auto
qed

text \<open>
  The boundaries: 1 and 7 segments are rejected, 2 and 6 accepted; lengths 0 and 5 are
  rejected, 1 and 4 accepted; two flags out of \<^verbatim>\<open>LockSame\<close>/\<^verbatim>\<open>LockAll\<close> are rejected, one
  is accepted.
\<close>

theorem C7_validation_rule_witness:
  "\<not> isvalidlockrequest (writerequest 0 [(''DontLock'', 1)]) \<and>
   isvalidlockrequest (writerequest 0 [(''DontLock'', 1), (''DontLock'', 4)]) \<and>
   isvalidlockrequest (writerequest 0 [(''DontLock'', 1), (''DontLock'', 1), (''DontLock'', 1),
     (''DontLock'', 1), (''DontLock'', 1), (''DontLock'', 1)]) \<and>
   \<not> isvalidlockrequest (writerequest 0 [(''DontLock'', 1), (''DontLock'', 1), (''DontLock'', 1),
     (''DontLock'', 1), (''DontLock'', 1), (''DontLock'', 1), (''DontLock'', 1)]) \<and>
   \<not> isvalidlockrequest (writerequest 0 [(''DontLock'', 0), (''DontLock'', 1)]) \<and>
   \<not> isvalidlockrequest (writerequest 0 [(''DontLock'', 1), (''DontLock'', 5)]) \<and>
   \<not> isvalidlockrequest (writerequest 0 [(''LockSame'', 1), (''LockSame'', 1)]) \<and>
   \<not> isvalidlockrequest (writerequest 0 [(''LockSame'', 1), (''LockAll'', 1)]) \<and>
   isvalidlockrequest (writerequest 0 [(''LockSame'', 1), (''DontLock'', 1)]) \<and>
   isvalidlockrequest (writerequest 0 [(''DontLock'', 1), (''LockAll'', 1)])"
  using C7_validation_rule [of "writerequest 0 [(''DontLock'', 1)]"]
    C7_validation_rule [of "writerequest 0 [(''DontLock'', 1), (''DontLock'', 4)]"]
    C7_validation_rule [of "writerequest 0 [(''DontLock'', 1), (''DontLock'', 1),
      (''DontLock'', 1), (''DontLock'', 1), (''DontLock'', 1), (''DontLock'', 1)]"]
    C7_validation_rule [of "writerequest 0 [(''DontLock'', 1), (''DontLock'', 1),
      (''DontLock'', 1), (''DontLock'', 1), (''DontLock'', 1), (''DontLock'', 1), (''DontLock'', 1)]"]
    C7_validation_rule [of "writerequest 0 [(''DontLock'', 0), (''DontLock'', 1)]"]
    C7_validation_rule [of "writerequest 0 [(''DontLock'', 1), (''DontLock'', 5)]"]
    C7_validation_rule [of "writerequest 0 [(''LockSame'', 1), (''LockSame'', 1)]"]
    C7_validation_rule [of "writerequest 0 [(''LockSame'', 1), (''LockAll'', 1)]"]
    C7_validation_rule [of "writerequest 0 [(''LockSame'', 1), (''DontLock'', 1)]"]
    C7_validation_rule [of "writerequest 0 [(''DontLock'', 1), (''LockAll'', 1)]"]
  by (simp add: writerequest_def)

text \<open>
  The claim as stated leaves the flag check out: a request that meets its four conditions
  and has a segment flag outside the three legal ones is rejected.
\<close>

theorem C7_unknown_flag_counterexample:
  "\<not> isvalidlockrequest unknown_flag \<and>
   (locktype unknown_flag = ''Read'' \<or> locktype unknown_flag = ''Write'') \<and>
   2 \<le> length (segmentinfo unknown_flag) \<and> length (segmentinfo unknown_flag) \<le> 6 \<and>
   list_all (\<lambda>p. 1 \<le> snd p \<and> snd p \<le> 4) (segmentinfo unknown_flag) \<and>
   length (filter (\<lambda>p. fst p = ''LockSame'' \<or> fst p = ''LockAll'') (segmentinfo unknown_flag)) < 2"
  by (simp add: unknown_flag_def writerequest_def isvalidlockrequest_def)

section \<open>The table\<close>

text \<open>Both table updates keep the keys in ascending order without repetition, as \<^verbatim>\<open>std::map\<close> does.\<close>

lemma keys_emplace: "set (map fst (emplace k v tbl)) = insert k (set (map fst tbl))"
  by (induction k v tbl rule: emplace.induct) (simp_all add: insert_commute)

lemma emplace_sorted:
  "sorted_wrt (<) (map fst tbl) \<Longrightarrow> sorted_wrt (<) (map fst (emplace k v tbl))"
proof (induction k v tbl rule: emplace.induct)
  case (1 k v)
  then show ?case by simp
next
  case (2 k v k' v' rest)
  have "k' < x" if "x \<in> set (map fst (emplace k v rest))" and "\<not> k < k'" and "k \<noteq> k'" for x
    using that "2.prems" unfolding keys_emplace by auto
  with 2 show ?case by auto
qed

lemma erase_sorted:
  "sorted_wrt (<) (map fst tbl) \<Longrightarrow> sorted_wrt (<) (map fst (erase k tbl))"
  by (induction tbl) (auto simp: erase_def)





section \<open>Acquire and release\<close>

text \<open>Both entry points keep the table's keys in ascending order.\<close>

lemma releaselock_sorted:
  "sorted_wrt (<) (map fst tbl) \<Longrightarrow> sorted_wrt (<) (map fst (releaselock tbl p))"
  by (induction p arbitrary: tbl) (simp_all add: erase_sorted)

lemma Acquirelock_sorted:
  assumes "Acquirelock e st batch = Inr (result, st')"
    and "sorted_wrt (<) (map fst (locktable st))"
  shows "sorted_wrt (<) (map fst (locktable st'))"
  using assms
  by (auto simp: Acquirelock_def isconflictwithtable_def addtotable_def generateTransactionID_def
      emplace_sorted split: if_splits sum.splits option.splits)

lemma Releaselock_sorted:
  assumes "Releaselock st p ids = Inr (result, st')"
    and "sorted_wrt (<) (map fst (locktable st))"
  shows "sorted_wrt (<) (map fst (locktable st'))"
  using assms
  by (auto simp: Releaselock_def releaselock_sorted split: if_splits sum.splits)

text \<open>The empty batch passes every check of \<^verbatim>\<open>Acquirelock\<close>.\<close>

lemma Acquirelock_empty_batch:
  "Acquirelock e st [] =
     Inr (Granted (transactionID st + 1),
          st\<lparr>transactionID := transactionID st + 1,
             locktable := emplace (transactionID st + 1) [] (locktable st)\<rparr>)"
  by (simp add: Acquirelock_def isconflictrequest_def isconflictwithtable_def addtotable_def
      generateTransactionID_def Granted_def)


















text \<open>An entry that holds the empty batch has no first record: the ownership check reads out of range.\<close>

lemma Releaselock_empty_entry:
  "find_entry (locktable st) t = Some [] \<Longrightarrow> Releaselock st [t] ids = Inl OutOfRange"
  by (simp add: Releaselock_def)

text \<open>
  Claim C2, as amended. On a fresh lock object, acquiring a one-record Write batch with
  two \<^verbatim>\<open>DontLock\<close> segments of length 2 is granted under id 1, and acquiring the same
  batch again is granted under id 2: the table check compares the record with itself,
  no position decides, and the table then holds the batch under both ids.
\<close>

theorem C2_identical_batch_granted_again:
  assumes "locktype r = ''Write''"
    and "segmentinfo r = [(''DontLock'', 2), (''DontLock'', 2)]"
  shows "Acquirelock e lockobject [r] =
           Inr (Granted 1, \<lparr>transactionID = 1, locktable = [(1, [r])]\<rparr>) \<and>
         Acquirelock e \<lparr>transactionID = 1, locktable = [(1, [r])]\<rparr> [r] =
           Inr (Granted 2, \<lparr>transactionID = 2, locktable = [(1, [r]), (2, [r])]\<rparr>)"
  using assms
  by (simp add: Acquirelock_def isvalidlockrequest_def isconflictrequest_def
      isconflictwithtable_def addtotable_def generateTransactionID_def Granted_def lockobject_def
      isconflictrecord_def comparesegmentdata_upt)

theorem C2_identical_batch_granted_again_witness:
  "Acquirelock BigEndian lockobject [scenario_record] = Inr (Granted 1, granted_once) \<and>
   Acquirelock BigEndian granted_once [scenario_record] = Inr (Granted 2, granted_twice)"
  using C2_identical_batch_granted_again [of scenario_record BigEndian]
  by (simp add: granted_once_def granted_twice_def scenario_record_def writerequest_def)

text \<open>The claim as stated fails: the second acquire returns a grant, not a table conflict.\<close>

theorem C2_no_table_conflict_counterexample:
  "Acquirelock LittleEndian lockobject [scenario_record] = Inr (Granted 1, granted_once) \<and>
   Acquirelock LittleEndian granted_once [scenario_record] = Inr (Granted 2, granted_twice) \<and>
   Granted 2 \<noteq> TableConflict 1 scenario_record"
  by (simp add: Acquirelock_def isvalidlockrequest_def isconflictrequest_def
      isconflictwithtable_def addtotable_def generateTransactionID_def Granted_def lockobject_def
      isconflictrecord_def comparesegmentdata_upt granted_once_def granted_twice_def scenario_record_def
      writerequest_def TableConflict_def)

text \<open>
  What a call does to the state: an acquire that is not granted leaves it as it was, a
  granted one returns the counter's successor and stores it; a release never touches the
  counter, and a rejected one leaves the state as it was.
\<close>

lemma Acquirelock_not_granted_state:
  assumes "Acquirelock e st batch = Inr (result, st')"
    and "grantedid result = None"
  shows "st' = st"
  using assms
  by (auto simp: Acquirelock_def isconflictwithtable_def addtotable_def grantedid_def
      generateTransactionID_def split: if_splits sum.splits option.splits prod.splits)

lemma Acquirelock_granted_state:
  assumes "Acquirelock e st batch = Inr (result, st')"
    and "grantedid result = Some tid"
  shows "tid = transactionID st + 1 \<and> transactionID st' = transactionID st + 1"
  using assms
  by (auto simp: Acquirelock_def isconflictwithtable_def addtotable_def grantedid_def
      generateTransactionID_def split: if_splits sum.splits option.splits prod.splits bool.splits)

lemma Releaselock_counter:
  "Releaselock st p ids = Inr (result, st') \<Longrightarrow> transactionID st' = transactionID st"
  by (auto simp: Releaselock_def split: if_splits sum.splits)

lemma Releaselock_rejected_state:
  assumes "Releaselock st p ids = Inr (result, st')"
    and "result = InvalidTransactionId \<or> (\<exists>t q. result = NotOwner t q)"
  shows "st' = st"
  using assms
  by (auto simp: Releaselock_def InvalidTransactionId_def NotOwner_def
      split: if_splits sum.splits)

lemma grantedid_rejections:
  "grantedid InvalidRequest = None" "grantedid SelfConflict = None"
  "grantedid (TableConflict t q) = None" "grantedid (Granted tid) = Some tid"
  by (simp_all add: grantedid_def InvalidRequest_def SelfConflict_def TableConflict_def
      Granted_def)

text \<open>
  Claim C8. Whenever \<^verbatim>\<open>Acquirelock\<close> returns one of its three rejections, and whenever
  \<^verbatim>\<open>Releaselock\<close> returns one of its two, the lock object (table and counter) after the
  call is the lock object before it.
\<close>

theorem C8_rejections_change_nothing:
  "(Acquirelock e st batch = Inr (result, st') \<longrightarrow>
      (result = InvalidRequest \<or> result = SelfConflict \<or> (\<exists>t q. result = TableConflict t q)) \<longrightarrow>
      st' = st) \<and>
   (Releaselock st p ids = Inr (released, st'') \<longrightarrow>
      (released = InvalidTransactionId \<or> (\<exists>t q. released = NotOwner t q)) \<longrightarrow>
      st'' = st)"
proof (intro conjI impI)
  assume run: "Acquirelock e st batch = Inr (result, st')"
    and "result = InvalidRequest \<or> result = SelfConflict \<or> (\<exists>t q. result = TableConflict t q)"
  then have "grantedid result = None"
    by (auto simp: grantedid_rejections)
  with run show "st' = st" by (rule Acquirelock_not_granted_state)
next
  assume "Releaselock st p ids = Inr (released, st'')"
    and "released = InvalidTransactionId \<or> (\<exists>t q. released = NotOwner t q)"
  then show "st'' = st" by (rule Releaselock_rejected_state)
qed

text \<open>Each of the five rejections, on the lock object that holds one granted record.\<close>

theorem C8_rejections_change_nothing_witness:
  "Acquirelock LittleEndian granted_once [unknown_flag] = Inr (InvalidRequest, granted_once) \<and>
   Acquirelock LittleEndian granted_once [lockall_first, longer_first] =
     Inr (SelfConflict, granted_once) \<and>
   Acquirelock LittleEndian granted_once [lockall_first] =
     Inr (TableConflict 1 scenario_record, granted_once) \<and>
   Releaselock granted_once [2] (''hmc1'', ''session1'') =
     Inr (InvalidTransactionId, granted_once) \<and>
   Releaselock granted_once [1] (''hmc2'', ''session1'') =
     Inr (NotOwner 1 scenario_record, granted_once)"
  using C8_rejections_change_nothing [where e = LittleEndian and st = granted_once
      and batch = "[unknown_flag]" and result = InvalidRequest and st' = granted_once
      and p = "[2]" and ids = "(''hmc1'', ''session1'')" and released = InvalidTransactionId
      and st'' = granted_once]
  by (simp add: Acquirelock_def Releaselock_def isvalidlockrequest_def isconflictrequest_def
      isconflictwithtable_def isconflictrecord_def granted_once_def unknown_flag_def
      lockall_first_def longer_first_def scenario_record_def writerequest_def find_entry_def
      InvalidRequest_def SelfConflict_def TableConflict_def InvalidTransactionId_def
      NotOwner_def)

section \<open>Transaction ids over a run\<close>

text \<open>The id issued in place \<open>i\<close> of a run is the counter at its start plus \<open>i + 1\<close>, in 32 bits.\<close>

lemma issued_nth:
  "i < length (issued e st ops) \<Longrightarrow>
   issued e st ops ! i = transactionID st + 1 + of_nat i"
proof (induction ops arbitrary: st i)
  case Nil
  then show ?case by simp
next
  case (Cons op ops)
  show ?case
  proof (cases op)
    case (Acquire batch)
    show ?thesis
    proof (cases "Acquirelock e st batch")
      case (Inl f)
      with Cons.prems Acquire show ?thesis by simp
    next
      case (Inr outcome)
      obtain result st' where outcome: "outcome = (result, st')"
        by (cases outcome)
      note run = Inr [unfolded outcome]
      show ?thesis
      proof (cases "grantedid result")
        case None
        then have "st' = st"
          using run by (intro Acquirelock_not_granted_state)
        with Cons.prems Cons.IH [of i st] Acquire run None show ?thesis by simp
      next
        case (Some tid)
        then have tid: "tid = transactionID st + 1" "transactionID st' = transactionID st + 1"
          using run Acquirelock_granted_state by blast+
        have unfold: "issued e st (op # ops) = tid # issued e st' ops"
          using Acquire run Some by simp
        show ?thesis
        proof (cases i)
          case 0
          then show ?thesis using unfold tid by simp
        next
          case (Suc j)
          then have "j < length (issued e st' ops)"
            using Cons.prems unfold by simp
          then have "issued e st' ops ! j = transactionID st' + 1 + of_nat j"
            by (rule Cons.IH)
          then show ?thesis using unfold tid Suc by simp
        qed
      qed
    qed
  next
    case (Release p ids)
    show ?thesis
    proof (cases "Releaselock st p ids")
      case (Inl f)
      with Cons.prems Release show ?thesis by simp
    next
      case (Inr outcome)
      obtain result st' where outcome: "outcome = (result, st')"
        by (cases outcome)
      note run = Inr [unfolded outcome]
      have "transactionID st' = transactionID st"
        using run by (rule Releaselock_counter)
      with Cons.prems Cons.IH [of i st'] Release run show ?thesis by simp
    qed
  qed
qed

text \<open>Below \<open>2 ^ 32\<close> the 32-bit value of a number is the number.\<close>

lemma unat_of_nat_u32: "n < 2 ^ 32 \<Longrightarrow> unat (of_nat n :: u32) = n"
  by (simp add: unat_of_nat)

text \<open>
  Claim C9, as amended. On a fresh lock object, over any sequence of acquires and
  releases, the id issued in place \<open>i\<close> (from 0) is \<open>i + 1\<close> modulo \<open>2 ^ 32\<close>; as long as
  fewer than \<open>2 ^ 32\<close> ids have been issued they are strictly increasing from 1 and no id
  is issued twice, whatever has been released in between.
\<close>

theorem C9_ids_count_from_one:
  "(\<forall>i<length (issued e lockobject ops). issued e lockobject ops ! i = of_nat (Suc i)) \<and>
   (length (issued e lockobject ops) < 2 ^ 32 \<longrightarrow>
      sorted_wrt (<) (issued e lockobject ops) \<and> distinct (issued e lockobject ops))"
proof (intro conjI impI allI)
  let ?ids = "issued e lockobject ops"
  have nth: "?ids ! i = of_nat (Suc i)" if "i < length ?ids" for i
    using issued_nth [OF that] by (simp add: lockobject_def)
  show "?ids ! i = of_nat (Suc i)" if "i < length ?ids" for i
    using that by (rule nth)
  assume small: "length ?ids < 2 ^ 32"
  have less: "?ids ! i < ?ids ! j" if "i < j" and "j < length ?ids" for i j
  proof -
    have "Suc i < 2 ^ 32" and "Suc j < 2 ^ 32"
      using that small by simp_all
    then have "unat (of_nat (Suc i) :: u32) = Suc i" and "unat (of_nat (Suc j) :: u32) = Suc j"
      by (simp_all only: unat_of_nat_u32)
    then have "(of_nat (Suc i) :: u32) < of_nat (Suc j)"
      using that(1) by (simp only: word_less_nat_alt)
    then show ?thesis using nth that by simp
  qed
  then show sorted: "sorted_wrt (<) ?ids"
    by (simp add: sorted_wrt_iff_nth_less)
  show "distinct ?ids"
    using sorted by (simp add: strict_sorted_iff)
qed

theorem C9_ids_count_from_one_witness:
  "issued LittleEndian lockobject example_run = [1, 2, 3] \<and>
   sorted_wrt (<) (issued LittleEndian lockobject example_run) \<and>
   distinct (issued LittleEndian lockobject example_run)"
proof -
  have run: "issued LittleEndian lockobject example_run = [1, 2, 3]"
    by (simp add: example_run_def lockobject_def Acquirelock_def Releaselock_def
      isvalidlockrequest_def isconflictrequest_def isconflictwithtable_def addtotable_def
      generateTransactionID_def grantedid_def scenario_record_def unknown_flag_def
      writerequest_def find_entry_def erase_def)
  then have "length (issued LittleEndian lockobject example_run) < 2 ^ 32"
    by simp
  with C9_ids_count_from_one [of LittleEndian example_run] run show ?thesis
    by blast
qed

text \<open>Grants of the empty batch in a row: each call issues an id.\<close>

lemma issued_empty_batches_length:
  "length (issued e st (replicate n (Acquire []))) = n"
  by (induction n arbitrary: st) (simp_all add: Acquirelock_empty_batch grantedid_rejections)

text \<open>When the number of grants is a multiple of \<open>2 ^ 32\<close>, the last id is 0 and the first is 1.\<close>

lemma issued_wraps_unsorted:
  assumes "of_nat n = (0 :: u32)" and "1 < n"
  shows "\<not> sorted_wrt (<) (issued e lockobject (replicate n (Acquire [])))"
proof
  let ?ids = "issued e lockobject (replicate n (Acquire []))"
  assume sorted: "sorted_wrt (<) ?ids"
  have len: "length ?ids = n"
    by (rule issued_empty_batches_length)
  have in_range: "0 < length ?ids" "n - 1 < length ?ids"
    using len assms(2) by simp_all
  have first: "?ids ! 0 = 1"
    using issued_nth [OF in_range(1)] by (simp add: lockobject_def)
  have "?ids ! (n - 1) = 1 + of_nat (n - 1)"
    using issued_nth [OF in_range(2)] by (simp add: lockobject_def)
  also have "\<dots> = of_nat (Suc (n - 1))"
    by simp
  also have "\<dots> = (0 :: u32)"
    using assms by simp
  finally have last: "?ids ! (n - 1) = 0" .
  have "?ids ! 0 < ?ids ! (n - 1)"
    using sorted len assms(2) by (simp add: sorted_wrt_iff_nth_less)
  with first last show False by simp
qed

text \<open>
  The claim as stated fails on the 32-bit counter: the \<open>2 ^ 32\<close>-th grant in a row gets
  id 0, below the ids before it.
\<close>

theorem C9_counter_wraps_counterexample:
  "\<not> sorted_wrt (<) (issued LittleEndian lockobject (replicate (2 ^ 32) (Acquire [])))"
proof (rule issued_wraps_unsorted)
  show "of_nat (2 ^ 32) = (0 :: u32)" by simp
  show "(1 :: nat) < 2 ^ 32" by simp
qed

end
